theory Spec2Isabelle
  imports Complex_Main "HOL-Library.AList" "HOL-Library.Log_Nat"
begin

section \<open>Pitch mapper (utils/guitarUtils.ts)\<close>

text \<open>
  MIDI pitches, fret numbers and string indices are JavaScript numbers holding integers;
  they are modelled as \<open>int\<close>.
\<close>

definition NUM_STRINGS :: nat where
  "NUM_STRINGS = 6"

definition MAX_FRET :: int where
  "MAX_FRET = 22"

definition TUNING :: "int list" where
  "TUNING = [40, 45, 50, 55, 59, 64]"

record Note =
  string :: int
  fret :: int
  pitch :: int

text \<open>
  The body of the callback given to \<open>TUNING.forEach\<close>: the array \<open>positions\<close> it pushes
  to is passed and returned, the arguments are \<open>(stringIdx, openPitch)\<close>.
\<close>

definition pushIfReachable :: "int \<Rightarrow> nat \<times> int \<Rightarrow> Note list \<Rightarrow> Note list" where
  "pushIfReachable p = (\<lambda>(stringIdx, openPitch) positions.
     (let fr = p - openPitch in
      if fr \<ge> 0 \<and> fr \<le> MAX_FRET
      then positions @ [\<lparr>string = int stringIdx, fret = fr, pitch = p\<rparr>]
      else positions))"

definition getPossiblePositions :: "int \<Rightarrow> Note list" where
  "getPossiblePositions p = fold (pushIfReachable p) (enumerate 0 TUNING) []"

text \<open>
  JavaScript numbers are IEEE 754 doubles. A double holds every integer below \<open>2^53\<close> in
  absolute value; a larger integer \<open>x\<close> with \<open>2^e \<le> \<bar>x\<bar> < 2^(e+1)\<close> is rounded to the
  nearest multiple of \<open>2^(e-52)\<close>, a tie going to the multiple with the even quotient.
  \<open>toDouble x\<close> is the double nearest to the integer \<open>x\<close>; the difference of two doubles
  holding integers is \<open>toDouble\<close> of their exact difference. (The doubles end near
  \<open>2^1024\<close>; a fret minus a centre fret that is a double stays within them.)
\<close>

definition toDouble :: "int \<Rightarrow> int" where
  "toDouble x =
     (let m = \<bar>x\<bar>; e = bitlen m - 1 in
      if e \<le> 52 then x
      else
        (let u = 2 ^ nat (e - 52); q = m div u; r = m mod u;
             n = (if 2 * r < u \<or> (2 * r = u \<and> even q) then q else q + 1)
         in sgn x * (n * u)))"

text \<open>
  The callback of the \<open>reduce\<close> in \<open>getBestPosition\<close>: \<open>Math.abs\<close> of the difference
  of two numbers, the difference rounded as above.
\<close>

definition closer :: "int \<Rightarrow> Note \<Rightarrow> Note \<Rightarrow> Note" where
  "closer centerFret prv cur =
     (let prevDist = \<bar>toDouble (fret prv - centerFret)\<bar>;
          currDist = \<bar>toDouble (fret cur - centerFret)\<bar>
      in if currDist < prevDist then cur else prv)"

text \<open>
  \<open>Array.prototype.reduce\<close> without an initial value: the first element starts the
  accumulator; on an empty array it throws, which \<open>getBestPosition\<close> excludes by its
  length test, so that branch is the \<open>null\<close> result here.
\<close>

fun reduce1 :: "('a \<Rightarrow> 'a \<Rightarrow> 'a) \<Rightarrow> 'a list \<Rightarrow> 'a option" where
  "reduce1 f [] = None"
| "reduce1 f (x # xs) = Some (foldl f x xs)"

definition getBestPosition :: "int \<Rightarrow> int \<Rightarrow> Note option" where
  "getBestPosition p centerFret =
     (let positions = getPossiblePositions p in
      if length positions = 0 then None
      else reduce1 (closer centerFret) positions)"

section \<open>Analysis payload and time-indexed lookups (App.tsx)\<close>

text \<open>
  Playback times are JavaScript numbers in seconds, modelled as \<open>real\<close>; an optional field
  (\<open>string?\<close>, \<open>fret?\<close>, \<open>bend_value?\<close>, \<open>pitch_bends?\<close>) is an \<open>option\<close>, \<open>None\<close> standing for
  \<open>undefined\<close>. The fields of App's \<open>Note\<close> carry the prefix \<open>n_\<close> where guitarUtils'
  \<open>Note\<close> has a field of the same name.
\<close>

record NoteData =
  n_start :: real
  n_end :: real
  n_pitch :: int
  velocity :: real
  bend_value :: "real option"
  n_string :: "int option"
  n_fret :: "int option"
  is_vibrato :: "bool option"
  vibrato_depth :: "real option"

record HandPosition =
  time :: real
  center_fret :: int

record BendSample =
  bend_time :: real
  bend_pitch :: real

record AnalysisResult =
  duration :: real
  "notes" :: "NoteData list"
  hand_positions :: "HandPosition list"
  pitch_bends :: "BendSample list option"

text \<open>
  The three \<open>useMemo\<close> values of \<open>App\<close>, as functions of the state they depend on:
  \<open>result\<close> (\<open>None\<close> is \<open>null\<close>), \<open>currentTime\<close>, \<open>isAutoHand\<close> and \<open>manualCenterFret\<close>.
  None of them has a failing branch for a payload of the declared type, so they return
  plain values.
\<close>

definition currentCenterFret :: "AnalysisResult option \<Rightarrow> real \<Rightarrow> bool \<Rightarrow> int \<Rightarrow> int" where
  "currentCenterFret result currentTime isAutoHand manualCenterFret =
     (case result of
        None \<Rightarrow> 2
      | Some r \<Rightarrow>
          if isAutoHand then
            (let relevant = filter (\<lambda>p. time p \<le> currentTime) (hand_positions r) in
             if length relevant > 0 then center_fret (last relevant) else 0)
          else manualCenterFret)"

definition sounding :: "real \<Rightarrow> NoteData \<Rightarrow> bool" where
  "sounding currentTime n \<longleftrightarrow> n_start n \<le> currentTime \<and> n_end n > currentTime"

text \<open>
  The callback of \<open>notesInTime.map\<close>; \<open>centerFret\<close> is the memoised \<open>currentCenterFret\<close>.
  When \<open>getBestPosition\<close> returns \<open>null\<close> the two fields keep what the note supplied.
\<close>

definition resolveNote :: "int \<Rightarrow> bool \<Rightarrow> int \<Rightarrow> NoteData \<Rightarrow> NoteData" where
  "resolveNote centerFret isAutoHand manualCenterFret n =
     (let finalString = n_string n; finalFret = n_fret n in
      if \<not> isAutoHand \<or> finalString = None \<or> finalFret = None then
        (let targetCenter = (if isAutoHand then centerFret else manualCenterFret) in
         case getBestPosition (n_pitch n) targetCenter of
           Some bestPos \<Rightarrow> n\<lparr>n_string := Some (string bestPos), n_fret := Some (fret bestPos)\<rparr>
         | None \<Rightarrow> n\<lparr>n_string := finalString, n_fret := finalFret\<rparr>)
      else n\<lparr>n_string := finalString, n_fret := finalFret\<rparr>)"

definition activeNotes :: "AnalysisResult option \<Rightarrow> real \<Rightarrow> bool \<Rightarrow> int \<Rightarrow> NoteData list" where
  "activeNotes result currentTime isAutoHand manualCenterFret =
     (case result of
        None \<Rightarrow> []
      | Some r \<Rightarrow>
          (let notesInTime = filter (sounding currentTime) (notes r) in
           map (resolveNote (currentCenterFret result currentTime isAutoHand manualCenterFret)
                  isAutoHand manualCenterFret) notesInTime))"

definition currentBend :: "AnalysisResult option \<Rightarrow> real \<Rightarrow> real" where
  "currentBend result currentTime =
     (case result of
        None \<Rightarrow> 0
      | Some r \<Rightarrow>
          (case pitch_bends r of
             None \<Rightarrow> 0
           | Some bends \<Rightarrow>
               (let relevantBends = filter (\<lambda>b. bend_time b \<le> currentTime) bends in
                if length relevantBends > 0 then bend_pitch (last relevantBends) else 0)))"

section \<open>Note trail (components/Fretboard.tsx)\<close>

text \<open>
  \<open>renderedNotes\<close> and \<open>currentActivePositions\<close> are objects keyed by the string
  \<open>string-fret\<close>. The key is modelled as the pair of the two integers (the text
  determines the pair and conversely), the object as an association list in insertion
  order: assignment to a key is \<open>AList.update\<close>, which replaces in place or appends,
  \<open>delete\<close> is \<open>AList.delete\<close>, lookup is \<open>map_of\<close>.

  An entry is the spread of \<open>pos\<close> and of the note, with the two presentation fields.
  The pair of \<open>pos\<close> is the key and its pitch is the note's, so the entry keeps the note;
  \<open>fadeStartTime\<close> is in milliseconds of the wall clock and is \<open>None\<close> on an object
  that has no such property.
\<close>

record RenderedNote =
  "note" :: NoteData
  isFading :: bool
  fadeStartTime :: "int option"

type_synonym key = "int \<times> int"

type_synonym trail = "(key \<times> RenderedNote) list"

definition notePos :: "NoteData \<Rightarrow> int \<Rightarrow> Note option" where
  "notePos nt centerFret =
     (case n_string nt of
        None \<Rightarrow> getBestPosition (n_pitch nt) centerFret
      | Some s \<Rightarrow>
          (case n_fret nt of
             None \<Rightarrow> getBestPosition (n_pitch nt) centerFret
           | Some f \<Rightarrow> Some \<lparr>string = s, fret = f, pitch = n_pitch nt\<rparr>))"

definition shouldRender :: "NoteData \<Rightarrow> Note \<Rightarrow> int \<Rightarrow> bool \<Rightarrow> bool" where
  "shouldRender nt pos centerFret filterOutOfRange =
     (let isExplicit = (n_string nt \<noteq> None) in
      if isExplicit then True
      else
        (let minReach = centerFret - 1; maxReach = centerFret + 5 in
         if \<not> filterOutOfRange \<or> (fret pos \<ge> minReach \<and> fret pos \<le> maxReach)
         then True else False))"

text \<open>The body of the loop over \<open>activeNotes\<close> in \<open>currentActivePositions\<close>.\<close>

definition addPosition :: "int \<Rightarrow> bool \<Rightarrow> NoteData \<Rightarrow> trail \<Rightarrow> trail" where
  "addPosition centerFret filterOutOfRange nt positions =
     (case notePos nt centerFret of
        None \<Rightarrow> positions
      | Some pos \<Rightarrow>
          if shouldRender nt pos centerFret filterOutOfRange
          then AList.update (string pos, fret pos)
                 \<lparr>note = nt, isFading = False, fadeStartTime = None\<rparr> positions
          else positions)"

definition currentActivePositions :: "NoteData list \<Rightarrow> int \<Rightarrow> bool \<Rightarrow> trail" where
  "currentActivePositions active centerFret filterOutOfRange =
     fold (addPosition centerFret filterOutOfRange) active []"

text \<open>
  The updater passed to \<open>setRenderedNotes\<close> by the synchronising effect, in its three
  passes. Each pass is a \<open>forEach\<close> over a snapshot of the keys; its callback is given
  the key and the object \<open>next\<close>. One reading \<open>now\<close> of \<open>Date.now()\<close> serves the whole
  update: the clock does not advance inside it.
\<close>

definition markOrRefresh :: "trail \<Rightarrow> int \<Rightarrow> key \<Rightarrow> trail \<Rightarrow> trail" where
  "markOrRefresh active now k nxt =
     (case map_of nxt k of
        None \<Rightarrow> nxt
      | Some e \<Rightarrow>
          (case map_of active k of
             None \<Rightarrow>
               if \<not> isFading e
               then AList.update k (e\<lparr>isFading := True, fadeStartTime := Some now\<rparr>) nxt
               else nxt
           | Some a \<Rightarrow> AList.update k (a\<lparr>isFading := False\<rparr>) nxt))"

definition addActive :: "trail \<Rightarrow> key \<Rightarrow> trail \<Rightarrow> trail" where
  "addActive active k nxt =
     (case map_of active k of
        None \<Rightarrow> nxt
      | Some a \<Rightarrow> AList.update k (a\<lparr>isFading := False\<rparr>) nxt)"

text \<open>
  The test \<open>isFading && (now - fadeStartTime > 500)\<close>; with no \<open>fadeStartTime\<close> the
  difference is NaN and the comparison false.
\<close>

definition expired :: "int \<Rightarrow> RenderedNote \<Rightarrow> bool" where
  "expired now e \<longleftrightarrow>
     isFading e \<and> (case fadeStartTime e of None \<Rightarrow> False | Some t \<Rightarrow> now - t > 500)"

definition cleanup :: "int \<Rightarrow> key \<Rightarrow> trail \<Rightarrow> trail" where
  "cleanup now k nxt =
     (case map_of nxt k of
        None \<Rightarrow> nxt
      | Some e \<Rightarrow> if expired now e then AList.delete k nxt else nxt)"

definition reconcile :: "trail \<Rightarrow> trail \<Rightarrow> int \<Rightarrow> trail" where
  "reconcile prev active now =
     (let nxt1 = fold (markOrRefresh active now) (map fst prev) prev;
          nxt2 = fold (addActive active) (map fst active) nxt1
      in fold (cleanup now) (map fst nxt2) nxt2)"

text \<open>The updater of the interval's callback; it returns \<open>prev\<close> itself when nothing expired.\<close>

definition sweep :: "trail \<Rightarrow> int \<Rightarrow> trail" where
  "sweep prev now = fold (cleanup now) (map fst prev) prev"

definition hasFading :: "trail \<Rightarrow> bool" where
  "hasFading rendered = list_ex (\<lambda>(k, e). isFading e) rendered"

text \<open>
  The bend shown for a rendered note; \<open>note.bend_value || 0\<close> is 0 for \<open>undefined\<close> and
  for 0.
\<close>

definition dynamicBend :: "RenderedNote \<Rightarrow> real \<Rightarrow> real" where
  "dynamicBend rn bend =
     (let isActive = \<not> isFading rn in
      if isActive then bend
      else (case bend_value (note rn) of
              None \<Rightarrow> 0
            | Some b \<Rightarrow> if b = 0 then 0 else b))"

subsection \<open>The two producers of updates\<close>

text \<open>
  \<open>renderedNotes\<close> is updated by the synchronising effect, run when
  \<open>currentActivePositions\<close> has changed (a tick), and by the callback of the interval
  that the second effect sets, every 100 ms, when and only when some entry is fading.
  That effect depends on \<open>renderedNotes\<close>: every update that yields a new object clears
  the interval and sets it anew, and an interval left alone fires again 100 ms after
  its last firing, so after each update the next firing is 100 ms later if an entry is
  fading and there is none otherwise. The state records the wall clock of the last
  update and that next firing. An event is admitted when the clock has not gone back,
  a tick only up to the pending firing (past it the interval fires first), a sweep only
  at that firing. Timers are taken as exact.
\<close>

record TrailState =
  renderedNotes :: trail
  clock :: int
  sweepDue :: "int option"

datatype event = Tick trail int | Sweep int

definition armSweep :: "trail \<Rightarrow> int \<Rightarrow> int option" where
  "armSweep rendered now = (if hasFading rendered then Some (now + 100) else None)"

definition updated :: "trail \<Rightarrow> int \<Rightarrow> TrailState" where
  "updated rendered now =
     \<lparr>renderedNotes = rendered, clock = now, sweepDue = armSweep rendered now\<rparr>"

fun step :: "TrailState \<Rightarrow> event \<Rightarrow> TrailState option" where
  "step s (Tick active now) =
     (if clock s \<le> now \<and> (case sweepDue s of None \<Rightarrow> True | Some d \<Rightarrow> now \<le> d)
      then Some (updated (reconcile (renderedNotes s) active now) now)
      else None)"
| "step s (Sweep now) =
     (if clock s \<le> now \<and> sweepDue s = Some now
      then Some (updated (sweep (renderedNotes s) now) now)
      else None)"

fun run :: "TrailState \<Rightarrow> event list \<Rightarrow> TrailState option" where
  "run s [] = Some s"
| "run s (ev # evs) = (case step s ev of None \<Rightarrow> None | Some s' \<Rightarrow> run s' evs)"

fun activeAt :: "event \<Rightarrow> key \<Rightarrow> bool" where
  "activeAt (Tick active now) k \<longleftrightarrow> map_of active k \<noteq> None"
| "activeAt (Sweep now) k \<longleftrightarrow> False"

section \<open>Notions used in the statements\<close>

text \<open>The distance that \<open>closer\<close> compares: computed in doubles.\<close>

definition fretDist :: "int \<Rightarrow> Note \<Rightarrow> int" where
  "fretDist c n = \<bar>toDouble (fret n - c)\<bar>"

text \<open>
  What pass 1 of the update leaves under a key that the previous trail has, and the
  effect of the clean-up on a looked-up entry.
\<close>

definition refreshed :: "trail \<Rightarrow> int \<Rightarrow> key \<Rightarrow> RenderedNote \<Rightarrow> RenderedNote" where
  "refreshed active now k e =
     (case map_of active k of
        None \<Rightarrow> if isFading e then e else e\<lparr>isFading := True, fadeStartTime := Some now\<rparr>
      | Some a \<Rightarrow> a\<lparr>isFading := False\<rparr>)"

definition unexpired :: "int \<Rightarrow> RenderedNote option \<Rightarrow> RenderedNote option" where
  "unexpired now x =
     (case x of None \<Rightarrow> None | Some e \<Rightarrow> if expired now e then None else Some e)"

text \<open>A tick at which the key is among the active positions; a sweep says nothing of it.\<close>

fun staysActive :: "event \<Rightarrow> key \<Rightarrow> bool" where
  "staysActive (Tick active now) k \<longleftrightarrow> map_of active k \<noteq> None"
| "staysActive (Sweep now) k \<longleftrightarrow> True"

text \<open>
  The state of a key that began to fade at \<open>T\<close> from the entry \<open>e\<close> and has not been
  active since: still fading with that timestamp, the clock within the fade duration and
  the sweep pending; or gone, the clock past the fade duration.
\<close>

definition fadingSince :: "int \<Rightarrow> key \<Rightarrow> RenderedNote \<Rightarrow> TrailState \<Rightarrow> bool" where
  "fadingSince T k e s \<longleftrightarrow>
     (case map_of (renderedNotes s) k of
        Some e' \<Rightarrow> e' = e\<lparr>isFading := True, fadeStartTime := Some T\<rparr> \<and> clock s \<le> T + 500
                  \<and> sweepDue s = Some (clock s + 100)
      | None \<Rightarrow> T + 500 < clock s)
     \<and> ((sweepDue s \<noteq> None) = hasFading (renderedNotes s))
     \<and> (\<forall>k' e'. map_of (renderedNotes s) k' = Some e' \<longrightarrow> \<not> expired (clock s) e')"

text \<open>
  The resolver as the specification words it: outside the case "explicit pair and
  automatic mode" the note is assigned the result of \<open>getBestPosition\<close>, no position when
  there is none. It is compared with \<open>resolveNote\<close> below.
\<close>

definition resolveNote_claimed :: "int \<Rightarrow> bool \<Rightarrow> int \<Rightarrow> NoteData \<Rightarrow> NoteData" where
  "resolveNote_claimed centerFret isAutoHand manualCenterFret n =
     (if isAutoHand \<and> n_string n \<noteq> None \<and> n_fret n \<noteq> None then n
      else
        (let best = getBestPosition (n_pitch n) (if isAutoHand then centerFret else manualCenterFret)
         in n\<lparr>n_string := map_option string best, n_fret := map_option fret best\<rparr>))"

text \<open>A note without an explicit pair whose pitch no string reaches.\<close>

definition unplaced :: "NoteData \<Rightarrow> bool" where
  "unplaced n \<longleftrightarrow>
     getPossiblePositions (n_pitch n) = [] \<and> (n_string n = None \<or> n_fret n = None)"

section \<open>Sample inputs\<close>

definition payload1 :: AnalysisResult where
  "payload1 = \<lparr>duration = 3, notes = [],
     hand_positions = [\<lparr>time = 0, center_fret = 3\<rparr>, \<lparr>time = 1, center_fret = 5\<rparr>,
                       \<lparr>time = 2, center_fret = 7\<rparr>],
     pitch_bends = Some [\<lparr>bend_time = 1, bend_pitch = 0.5\<rparr>, \<lparr>bend_time = 2, bend_pitch = 0\<rparr>]\<rparr>"

definition note1 :: NoteData where
  "note1 = \<lparr>n_start = 0, n_end = 1, n_pitch = 100, velocity = 1, bend_value = None,
     n_string = Some 0, n_fret = Some 5, is_vibrato = None, vibrato_depth = None\<rparr>"

definition payload2 :: AnalysisResult where
  "payload2 = \<lparr>duration = 1, notes = [note1], hand_positions = [], pitch_bends = None\<rparr>"

definition note2 :: NoteData where
  "note2 = \<lparr>n_start = 0, n_end = 1, n_pitch = 57, velocity = 1, bend_value = Some 0.5,
     n_string = Some 3, n_fret = Some 2, is_vibrato = None, vibrato_depth = None\<rparr>"

definition entry2 :: RenderedNote where
  "entry2 = \<lparr>note = note2, isFading = False, fadeStartTime = None\<rparr>"

definition faded2 :: RenderedNote where
  "faded2 = \<lparr>note = note2, isFading = True, fadeStartTime = Some 1000\<rparr>"

definition state0 :: TrailState where
  "state0 = \<lparr>renderedNotes = [((3, 2), entry2)], clock = 1000, sweepDue = None\<rparr>"

section \<open>Properties of the pitch mapper\<close>

lemma pushIfReachable_step:
  "pushIfReachable p (i, openPitch) acc =
     acc @ (if 0 \<le> p - openPitch \<and> p - openPitch \<le> MAX_FRET
            then [\<lparr>string = int i, fret = p - openPitch, pitch = p\<rparr>] else [])"
  by (simp add: pushIfReachable_def Let_def)

lemma fold_pushIfReachable:
  "fold (pushIfReachable p) xs acc =
     acc @ map (\<lambda>(i, openPitch). \<lparr>string = int i, fret = p - openPitch, pitch = p\<rparr>)
            (filter (\<lambda>(i, openPitch). 0 \<le> p - openPitch \<and> p - openPitch \<le> MAX_FRET) xs)"
proof (induction xs arbitrary: acc)
  case Nil
  show ?case by simp
next
  case (Cons x xs)
  obtain i openPitch where x: "x = (i, openPitch)"
    by (cases x)
  show ?case
    by (simp add: x Cons.IH pushIfReachable_step)
qed

lemma getPossiblePositions_filter:
  "getPossiblePositions p =
     map (\<lambda>(i, openPitch). \<lparr>string = int i, fret = p - openPitch, pitch = p\<rparr>)
       (filter (\<lambda>(i, openPitch). 0 \<le> p - openPitch \<and> p - openPitch \<le> MAX_FRET)
          (enumerate 0 TUNING))"
  by (simp add: getPossiblePositions_def fold_pushIfReachable)

lemma length_TUNING: "length TUNING = 6"
  by (simp add: TUNING_def)

lemma set_getPossiblePositions:
  "set (getPossiblePositions p) =
     {\<lparr>string = int i, fret = p - TUNING ! i, pitch = p\<rparr> | i.
        i < 6 \<and> 0 \<le> p - TUNING ! i \<and> p - TUNING ! i \<le> 22}"
  unfolding getPossiblePositions_filter
  by (auto simp: in_set_enumerate_eq length_TUNING MAX_FRET_def image_iff)

lemma strings_increasing:
  "sorted_wrt (<) (map string (getPossiblePositions p))"
proof -
  have "sorted_wrt (<) (map fst (enumerate 0 TUNING))"
    by simp
  then have "sorted_wrt (\<lambda>x y. fst x < fst y) (enumerate 0 TUNING)"
    by (simp only: sorted_wrt_map)
  then have "sorted_wrt (\<lambda>x y. fst x < fst y)
      (filter (\<lambda>(i, openPitch). 0 \<le> p - openPitch \<and> p - openPitch \<le> MAX_FRET)
         (enumerate 0 TUNING))"
    by (rule sorted_wrt_filter)
  then show ?thesis
    unfolding getPossiblePositions_filter
    by (simp add: sorted_wrt_map case_prod_beta)
qed

lemma ev57: "getPossiblePositions 57 = [\<lparr>string = 0, fret = 17, pitch = 57\<rparr>, \<lparr>string = 1, fret = 12, pitch = 57\<rparr>,
   \<lparr>string = 2, fret = 7, pitch = 57\<rparr>, \<lparr>string = 3, fret = 2, pitch = 57\<rparr>]"
  by (simp add: getPossiblePositions_def TUNING_def pushIfReachable_def MAX_FRET_def)

text \<open>
  C8: for every integer pitch the returned list holds the pair (string i, fret p - tuning[i])
  for exactly the strings i in 0..5 whose fret lies in [0,22]; hence every returned fret is
  in [0,22], and the list is empty iff no string reaches the pitch.
\<close>

theorem getPossiblePositions_exact:
  "set (getPossiblePositions p) =
     {\<lparr>string = int i, fret = p - TUNING ! i, pitch = p\<rparr> | i.
        i < 6 \<and> 0 \<le> p - TUNING ! i \<and> p - TUNING ! i \<le> 22}
   \<and> (\<forall>q \<in> set (getPossiblePositions p). 0 \<le> fret q \<and> fret q \<le> 22)
   \<and> (getPossiblePositions p = [] \<longleftrightarrow>
        (\<forall>i < 6. \<not> (0 \<le> p - TUNING ! i \<and> p - TUNING ! i \<le> 22)))"
proof (intro conjI)
  show s: "set (getPossiblePositions p) =
     {\<lparr>string = int i, fret = p - TUNING ! i, pitch = p\<rparr> | i.
        i < 6 \<and> 0 \<le> p - TUNING ! i \<and> p - TUNING ! i \<le> 22}"
    by (rule set_getPossiblePositions)
  show "\<forall>q \<in> set (getPossiblePositions p). 0 \<le> fret q \<and> fret q \<le> 22"
    unfolding s by auto
  have "getPossiblePositions p = [] \<longleftrightarrow> set (getPossiblePositions p) = {}"
    by simp
  also have "\<dots> \<longleftrightarrow> (\<forall>i < 6. \<not> (0 \<le> p - TUNING ! i \<and> p - TUNING ! i \<le> 22))"
    unfolding s by auto
  finally show "getPossiblePositions p = [] \<longleftrightarrow>
      (\<forall>i < 6. \<not> (0 \<le> p - TUNING ! i \<and> p - TUNING ! i \<le> 22))" .
qed

theorem getPossiblePositions_exact_witness:
  "getPossiblePositions 57 \<noteq> []
   \<and> list_all (\<lambda>q. 0 \<le> fret q \<and> fret q \<le> 22) (getPossiblePositions 57)
   \<and> (\<exists>i < 6. 0 \<le> 57 - TUNING ! i \<and> 57 - TUNING ! i \<le> 22)"
proof -
  note t = getPossiblePositions_exact [of 57]
  have ne: "getPossiblePositions 57 \<noteq> []"
    by (simp add: ev57)
  from t have rng: "\<forall>q \<in> set (getPossiblePositions 57). 0 \<le> fret q \<and> fret q \<le> 22"
    by blast
  from t ne have "\<exists>i < 6. 0 \<le> 57 - TUNING ! i \<and> 57 - TUNING ! i \<le> 22"
    by blast
  with ne rng show ?thesis
    by (simp only: list_all_iff) blast
qed

lemma toDouble_exact: "\<bar>x\<bar> < 2 ^ 53 \<Longrightarrow> toDouble x = x"
proof -
  assume "\<bar>x\<bar> < 2 ^ 53"
  then have "bitlen \<bar>x\<bar> \<le> 53"
    by (simp add: bitlen_le_iff_power)
  then show ?thesis
    by (simp add: toDouble_def Let_def)
qed

text \<open>Between \<open>2^53\<close> and \<open>2^54\<close> the doubles are the even integers.\<close>

lemma toDouble_near:
  assumes "0 \<le> x" and "x < 2 ^ 54"
  shows "0 \<le> toDouble x \<and> \<bar>toDouble x - x\<bar> \<le> 1"
proof (cases "x < 2 ^ 53")
  case True
  with assms(1) show ?thesis
    by (simp add: toDouble_exact)
next
  case False
  then have pos: "0 < x" by simp
  have "bitlen x \<le> 54"
    using assms(2) by (simp add: bitlen_le_iff_power)
  moreover have "\<not> bitlen x \<le> 53"
    using False by (simp add: bitlen_le_iff_power)
  ultimately have b: "bitlen x = 54"
    by simp
  have td: "toDouble x =
      (if 2 * (x mod 2) < 2 \<or> (2 * (x mod 2) = 2 \<and> even (x div 2))
       then x div 2 else x div 2 + 1) * 2"
    using pos by (simp add: toDouble_def Let_def b)
  have r: "x mod 2 = 0 \<or> x mod 2 = 1"
    by auto
  then show ?thesis
  proof
    assume r0: "x mod 2 = 0"
    then have "toDouble x = x div 2 * 2"
      by (simp add: td)
    with r0 pos show ?thesis
      by presburger
  next
    assume r1: "x mod 2 = 1"
    then have "toDouble x = x div 2 * 2 \<or> toDouble x = (x div 2 + 1) * 2"
      by (simp add: td)
    with r1 pos show ?thesis
      by presburger
  qed
qed

text \<open>
  For a centre fret below \<open>2^53\<close> in absolute value, rounding keeps the order of the
  distances of two frets of the board that are equal or at least 4 apart.
\<close>

lemma rounded_order:
  assumes c: "\<bar>c\<bar> < 2 ^ 53"
    and f1: "0 \<le> f1" "f1 \<le> 22" and f2: "0 \<le> f2" "f2 \<le> 22"
    and apart: "f1 = f2 \<or> 4 \<le> \<bar>f1 - f2\<bar>"
  shows "\<bar>toDouble (f1 - c)\<bar> < \<bar>toDouble (f2 - c)\<bar> \<longleftrightarrow> \<bar>f1 - c\<bar> < \<bar>f2 - c\<bar>"
proof (cases "- (2 ^ 53) + 23 \<le> c")
  case True
  with c f1 f2 have "\<bar>f1 - c\<bar> < 2 ^ 53" and "\<bar>f2 - c\<bar> < 2 ^ 53"
    by simp_all
  then show ?thesis
    by (simp add: toDouble_exact)
next
  case False
  with c f1 f2 have x1: "0 \<le> f1 - c" "f1 - c < 2 ^ 54" and x2: "0 \<le> f2 - c" "f2 - c < 2 ^ 54"
    by simp_all
  from toDouble_near [OF x1] toDouble_near [OF x2]
  have n1: "0 \<le> toDouble (f1 - c)" "\<bar>toDouble (f1 - c) - (f1 - c)\<bar> \<le> 1"
    and n2: "0 \<le> toDouble (f2 - c)" "\<bar>toDouble (f2 - c) - (f2 - c)\<bar> \<le> 1"
    by simp_all
  from apart consider "f1 = f2" | "f1 + 4 \<le> f2" | "f2 + 4 \<le> f1"
    by linarith
  then show ?thesis
  proof cases
    case 1
    then show ?thesis by simp
  next
    case 2
    with n1 n2 x1 x2 show ?thesis by linarith
  next
    case 3
    with n1 n2 x1 x2 show ?thesis by linarith
  qed
qed

lemma TUNING_nth:
  "i < 6 \<Longrightarrow> TUNING ! i \<in> {40, 45, 50, 55, 59, 64}"
proof -
  assume "i < 6"
  then have "i \<in> {0, 1, 2, 3, 4, 5}"
    by auto
  then show ?thesis
    by (auto simp: TUNING_def)
qed

lemma frets_apart:
  assumes "q \<in> set (getPossiblePositions p)" and "r \<in> set (getPossiblePositions p)"
  shows "0 \<le> fret q \<and> fret q \<le> 22 \<and> (fret q = fret r \<or> 4 \<le> \<bar>fret q - fret r\<bar>)"
proof -
  from assms obtain i j where i: "i < 6" "fret q = p - TUNING ! i"
      "0 \<le> p - TUNING ! i" "p - TUNING ! i \<le> 22"
    and j: "j < 6" "fret r = p - TUNING ! j"
    unfolding set_getPossiblePositions by auto
  from TUNING_nth [OF i(1)] TUNING_nth [OF j(1)]
  have "TUNING ! i = TUNING ! j \<or> 4 \<le> \<bar>TUNING ! i - TUNING ! j\<bar>"
    by auto
  with i j show ?thesis
    by auto
qed

lemma closer_fretDist:
  "closer c prv cur = (if fretDist c cur < fretDist c prv then cur else prv)"
  by (simp add: closer_def fretDist_def Let_def)

lemma foldl_closer_mem: "foldl (closer c) a xs \<in> set (a # xs)"
  by (induction xs arbitrary: a) (auto simp: closer_fretDist)

lemma foldl_closer_min:
  "q \<in> set (a # xs) \<Longrightarrow> fretDist c (foldl (closer c) a xs) \<le> fretDist c q"
proof (induction xs arbitrary: a q)
  case Nil
  then show ?case by simp
next
  case (Cons x xs)
  have le: "fretDist c (closer c a x) \<le> fretDist c a" "fretDist c (closer c a x) \<le> fretDist c x"
    by (simp_all add: closer_fretDist)
  have r: "fretDist c (foldl (closer c) (closer c a x) xs) \<le> fretDist c (closer c a x)"
    by (rule Cons.IH) simp
  from Cons.prems consider "q = a" | "q = x" | "q \<in> set xs" by auto
  then show ?case
  proof cases
    case 1 with le r show ?thesis by simp
  next
    case 2 with le r show ?thesis by simp
  next
    case 3 then show ?thesis using Cons.IH [of q "closer c a x"] by simp
  qed
qed

lemma foldl_closer_first:
  "sorted_wrt (<) (map string (a # xs)) \<Longrightarrow> q \<in> set (a # xs) \<Longrightarrow>
   fretDist c q = fretDist c (foldl (closer c) a xs) \<Longrightarrow>
   string (foldl (closer c) a xs) \<le> string q"
proof (induction xs arbitrary: a q)
  case Nil
  then show ?case by simp
next
  case (Cons x xs)
  let ?m = "closer c a x"
  let ?r = "foldl (closer c) ?m xs"
  have m: "?m = a \<or> ?m = x"
    by (simp add: closer_fretDist)
  have ax: "string a < string x" and axs: "\<forall>y \<in> set xs. string a < string y"
    and xxs: "\<forall>y \<in> set xs. string x < string y" and sxs: "sorted_wrt (<) (map string xs)"
    using Cons.prems(1) by auto
  have sorted_m: "sorted_wrt (<) (map string (?m # xs))"
    using m axs xxs sxs by auto
  have IH: "\<And>q. q \<in> set (?m # xs) \<Longrightarrow> fretDist c q = fretDist c ?r \<Longrightarrow> string ?r \<le> string q"
    using Cons.IH [OF sorted_m] by simp
  have eq: "fretDist c q = fretDist c ?r"
    using Cons.prems(3) by simp
  have rm: "fretDist c ?r \<le> fretDist c ?m"
    by (rule foldl_closer_min) simp
  show ?case
  proof (cases "q \<in> set (?m # xs)")
    case True
    then show ?thesis using IH eq by simp
  next
    case False
    with Cons.prems(2) m have cases: "(?m = x \<and> q = a) \<or> (?m = a \<and> q = x)"
      by auto
    then show ?thesis
    proof
      assume h: "?m = x \<and> q = a"
      then have "?m \<noteq> a" using False by auto
      then have "fretDist c x < fretDist c a"
        by (auto simp: closer_fretDist split: if_splits)
      with h rm eq show ?thesis by simp
    next
      assume h: "?m = a \<and> q = x"
      then have "?m \<noteq> x" using False by auto
      then have "fretDist c a \<le> fretDist c x"
        by (auto simp: closer_fretDist split: if_splits)
      with h rm eq have "fretDist c a = fretDist c ?r" by simp
      then have "string ?r \<le> string a" using IH [of a] h by simp
      with ax h show ?thesis by simp
    qed
  qed
qed

text \<open>
  C1 (amended): for every pitch reachable on at least one string and every integer centre
  fret below \<open>2^53\<close> in absolute value, \<open>getBestPosition\<close> returns an element of
  \<open>getPossiblePositions\<close> whose fret is at minimal distance from the centre; among
  candidates at that same distance it is the one with the lowest string index. With
  tuning [40,45,50,55,59,64], pitch 57 and centre 3 give string 3, fret 2.
\<close>

theorem getBestPosition_closest:
  "(\<bar>c\<bar> < 2 ^ 53 \<and> getPossiblePositions p \<noteq> [] \<longrightarrow>
      (\<exists>b. getBestPosition p c = Some b \<and> b \<in> set (getPossiblePositions p)
         \<and> (\<forall>q \<in> set (getPossiblePositions p).
               \<bar>fret b - c\<bar> \<le> \<bar>fret q - c\<bar>
             \<and> (\<bar>fret q - c\<bar> = \<bar>fret b - c\<bar> \<longrightarrow> string b \<le> string q))))
   \<and> (TUNING = [40, 45, 50, 55, 59, 64]
        \<and> getBestPosition 57 3 = Some \<lparr>string = 3, fret = 2, pitch = 57\<rparr>)"
proof (intro conjI impI)
  assume h: "\<bar>c\<bar> < 2 ^ 53 \<and> getPossiblePositions p \<noteq> []"
  then obtain a xs where ps: "getPossiblePositions p = a # xs"
    by (cases "getPossiblePositions p") auto
  let ?b = "foldl (closer c) a xs"
  have best: "getBestPosition p c = Some ?b"
    by (simp add: getBestPosition_def ps)
  have srt: "sorted_wrt (<) (map string (a # xs))"
    using strings_increasing [of p] by (simp only: ps)
  have mem: "?b \<in> set (getPossiblePositions p)"
    unfolding ps by (rule foldl_closer_mem)
  have ord: "fretDist c q1 < fretDist c q2 \<longleftrightarrow> \<bar>fret q1 - c\<bar> < \<bar>fret q2 - c\<bar>"
    if "q1 \<in> set (getPossiblePositions p)" and "q2 \<in> set (getPossiblePositions p)" for q1 q2
    unfolding fretDist_def
    using frets_apart [OF that] frets_apart [OF that(2,1)] h
    by (intro rounded_order) simp_all
  have "\<bar>fret ?b - c\<bar> \<le> \<bar>fret q - c\<bar>
        \<and> (\<bar>fret q - c\<bar> = \<bar>fret ?b - c\<bar> \<longrightarrow> string ?b \<le> string q)"
    if q: "q \<in> set (getPossiblePositions p)" for q
  proof
    have "fretDist c ?b \<le> fretDist c q"
      using q unfolding ps by (rule foldl_closer_min)
    then show "\<bar>fret ?b - c\<bar> \<le> \<bar>fret q - c\<bar>"
      using ord [OF q mem] by linarith
    show "\<bar>fret q - c\<bar> = \<bar>fret ?b - c\<bar> \<longrightarrow> string ?b \<le> string q"
    proof
      assume "\<bar>fret q - c\<bar> = \<bar>fret ?b - c\<bar>"
      with ord [OF q mem] ord [OF mem q] have "fretDist c q = fretDist c ?b"
        by linarith
      with srt q show "string ?b \<le> string q"
        unfolding ps by (intro foldl_closer_first)
    qed
  qed
  with best mem show "\<exists>b. getBestPosition p c = Some b \<and> b \<in> set (getPossiblePositions p)
         \<and> (\<forall>q \<in> set (getPossiblePositions p).
               \<bar>fret b - c\<bar> \<le> \<bar>fret q - c\<bar>
             \<and> (\<bar>fret q - c\<bar> = \<bar>fret b - c\<bar> \<longrightarrow> string b \<le> string q))"
    by blast
next
  show "TUNING = [40, 45, 50, 55, 59, 64]"
    by (simp add: TUNING_def)
next
  show "getBestPosition 57 3 = Some \<lparr>string = 3, fret = 2, pitch = 57\<rparr>"
    by (simp add: getBestPosition_def ev57 closer_def toDouble_exact)
qed

text \<open>Pitch 59 around fret 2: frets 4 (string 3) and 0 (string 4) are both at distance 2.\<close>

lemma ev59: "getPossiblePositions 59 = [\<lparr>string = 0, fret = 19, pitch = 59\<rparr>, \<lparr>string = 1, fret = 14, pitch = 59\<rparr>,
   \<lparr>string = 2, fret = 9, pitch = 59\<rparr>, \<lparr>string = 3, fret = 4, pitch = 59\<rparr>, \<lparr>string = 4, fret = 0, pitch = 59\<rparr>]"
  by (simp add: getPossiblePositions_def TUNING_def pushIfReachable_def MAX_FRET_def)

theorem getBestPosition_closest_witness:
  "\<bar>2 :: int\<bar> < 2 ^ 53 \<and> getPossiblePositions 59 \<noteq> []
   \<and> getBestPosition 59 2 = Some \<lparr>string = 3, fret = 4, pitch = 59\<rparr>
   \<and> \<bar>fret \<lparr>string = 4, fret = 0, pitch = 59\<rparr> - 2\<bar> = \<bar>fret \<lparr>string = 3, fret = 4, pitch = 59\<rparr> - (2::int)\<bar>"
  using getBestPosition_closest [of 2 59]
  by (simp add: getBestPosition_def ev59 closer_def toDouble_exact)

text \<open>
  C1 as stated fails for a centre fret that doubles no longer tell from its neighbours:
  around \<open>-2^56\<close> the doubles are 16 apart, the distances of frets 7 and 2 both round to
  \<open>2^56\<close>, and the scan keeps string 2, fret 7, although fret 2 on string 3 is closer.
\<close>

lemma rounded_distances:
  "toDouble 72057594037927953 = 72057594037927952"
  "toDouble 72057594037927948 = 72057594037927952"
  "toDouble 72057594037927943 = 72057594037927936"
  "toDouble 72057594037927938 = 72057594037927936"
  by code_simp+

theorem getBestPosition_rounding_counterexample:
  "(2 :: int) ^ 56 = 72057594037927936
   \<and> getBestPosition 57 (- 72057594037927936) = Some \<lparr>string = 2, fret = 7, pitch = 57\<rparr>
   \<and> \<lparr>string = 3, fret = 2, pitch = 57\<rparr> \<in> set (getPossiblePositions 57)
   \<and> \<bar>fret \<lparr>string = 3, fret = 2, pitch = 57\<rparr> - (- 72057594037927936)\<bar>
       < \<bar>fret \<lparr>string = 2, fret = 7, pitch = 57\<rparr> - (- 72057594037927936)\<bar>"
proof -
  have "getBestPosition 57 (- 72057594037927936) = Some \<lparr>string = 2, fret = 7, pitch = 57\<rparr>"
    unfolding getBestPosition_def ev57 Let_def
    by (simp add: closer_def Let_def rounded_distances)
  then show ?thesis
    by (simp add: ev57)
qed

section \<open>Properties of the time-indexed lookups\<close>

lemma last_filter_nth:
  assumes "i < length xs" and "P (xs ! i)"
    and "\<forall>j. i < j \<and> j < length xs \<longrightarrow> \<not> P (xs ! j)"
  shows "filter P xs \<noteq> [] \<and> last (filter P xs) = xs ! i"
proof -
  have split: "xs = take i xs @ xs ! i # drop (Suc i) xs"
    using assms(1) by (rule id_take_nth_drop)
  have "\<forall>x \<in> set (drop (Suc i) xs). \<not> P x"
  proof
    fix x assume "x \<in> set (drop (Suc i) xs)"
    then obtain k where k: "k < length (drop (Suc i) xs)" "x = drop (Suc i) xs ! k"
      by (auto simp: in_set_conv_nth)
    then have "x = xs ! (Suc i + k)" and "Suc i + k < length xs"
      by auto
    with assms(3) show "\<not> P x" by auto
  qed
  then have rest: "filter P (drop (Suc i) xs) = []"
    by (simp add: filter_empty_conv)
  have "filter P xs = filter P (take i xs) @ [xs ! i]"
    by (subst split) (simp add: assms(2) rest)
  then show ?thesis by simp
qed

text \<open>
  C6: over a loaded payload, the automatic centre fret at time t is the \<open>center_fret\<close> of
  the last hand position (in list order) whose time is at most t, and 0 when there is no
  such sample, in particular for an empty list; the bend at t is the \<open>pitch\<close> of the last
  bend sample whose time is at most t, and 0 when there is none or when \<open>pitch_bends\<close> is
  absent. Both lookups are total functions without a failing branch.
\<close>

theorem lookups_last_sample:
  "((\<forall>p \<in> set (hand_positions r). \<not> time p \<le> t) \<longrightarrow>
       currentCenterFret (Some r) t True m = 0)
   \<and> (hand_positions r = [] \<longrightarrow> currentCenterFret (Some r) t True m = 0)
   \<and> (i < length (hand_positions r) \<and> time (hand_positions r ! i) \<le> t
        \<and> (\<forall>j. i < j \<and> j < length (hand_positions r) \<longrightarrow> \<not> time (hand_positions r ! j) \<le> t) \<longrightarrow>
       currentCenterFret (Some r) t True m = center_fret (hand_positions r ! i))
   \<and> (pitch_bends r = None \<longrightarrow> currentBend (Some r) t = 0)
   \<and> (pitch_bends r = Some bs \<and> (\<forall>b \<in> set bs. \<not> bend_time b \<le> t) \<longrightarrow>
       currentBend (Some r) t = 0)
   \<and> (pitch_bends r = Some bs \<and> k < length bs \<and> bend_time (bs ! k) \<le> t
        \<and> (\<forall>j. k < j \<and> j < length bs \<longrightarrow> \<not> bend_time (bs ! j) \<le> t) \<longrightarrow>
       currentBend (Some r) t = bend_pitch (bs ! k))"
proof (intro conjI impI)
  assume "\<forall>p \<in> set (hand_positions r). \<not> time p \<le> t"
  then have "filter (\<lambda>p. time p \<le> t) (hand_positions r) = []"
    by (simp add: filter_empty_conv)
  then show "currentCenterFret (Some r) t True m = 0"
    by (simp add: currentCenterFret_def)
next
  assume "hand_positions r = []"
  then show "currentCenterFret (Some r) t True m = 0"
    by (simp add: currentCenterFret_def)
next
  assume "i < length (hand_positions r) \<and> time (hand_positions r ! i) \<le> t
        \<and> (\<forall>j. i < j \<and> j < length (hand_positions r) \<longrightarrow> \<not> time (hand_positions r ! j) \<le> t)"
  then have "filter (\<lambda>p. time p \<le> t) (hand_positions r) \<noteq> []
      \<and> last (filter (\<lambda>p. time p \<le> t) (hand_positions r)) = hand_positions r ! i"
    by (intro last_filter_nth) simp_all
  then show "currentCenterFret (Some r) t True m = center_fret (hand_positions r ! i)"
    by (simp add: currentCenterFret_def)
next
  assume "pitch_bends r = None"
  then show "currentBend (Some r) t = 0"
    by (simp add: currentBend_def)
next
  assume "pitch_bends r = Some bs \<and> (\<forall>b \<in> set bs. \<not> bend_time b \<le> t)"
  then have "pitch_bends r = Some bs" and "filter (\<lambda>b. bend_time b \<le> t) bs = []"
    by (simp_all add: filter_empty_conv)
  then show "currentBend (Some r) t = 0"
    by (simp add: currentBend_def)
next
  assume a: "pitch_bends r = Some bs \<and> k < length bs \<and> bend_time (bs ! k) \<le> t
        \<and> (\<forall>j. k < j \<and> j < length bs \<longrightarrow> \<not> bend_time (bs ! j) \<le> t)"
  then have "filter (\<lambda>b. bend_time b \<le> t) bs \<noteq> []
      \<and> last (filter (\<lambda>b. bend_time b \<le> t) bs) = bs ! k"
    by (intro last_filter_nth) simp_all
  with a show "currentBend (Some r) t = bend_pitch (bs ! k)"
    by (simp add: currentBend_def)
qed

theorem lookups_last_sample_witness:
  "currentCenterFret (Some payload1) 1.5 True 2 = 5
   \<and> currentCenterFret (Some payload1) (-1) True 2 = 0
   \<and> currentBend (Some payload1) 1.5 = 0.5
   \<and> currentBend (Some payload1) 0.5 = 0
   \<and> currentBend (Some (payload1\<lparr>pitch_bends := None\<rparr>)) 1.5 = 0"
proof -
  let ?bs = "[\<lparr>bend_time = 1, bend_pitch = 0.5\<rparr>, \<lparr>bend_time = 2, bend_pitch = 0\<rparr>]"
  have nth: "\<And>j. 1 < j \<and> j < 3 \<longrightarrow> j = (2::nat)" by auto
  have hp: "\<forall>j. 1 < j \<and> j < length (hand_positions payload1) \<longrightarrow>
      \<not> time (hand_positions payload1 ! j) \<le> 1.5"
    using nth by (auto simp: payload1_def)
  have c1: "currentCenterFret (Some payload1) 1.5 True 2 = 5"
    using lookups_last_sample [of payload1 "1.5" 2 1 ?bs 0] hp
    by (simp add: payload1_def)
  have c2: "currentCenterFret (Some payload1) (-1) True 2 = 0"
    using lookups_last_sample [of payload1 "-1" 2 1 ?bs 0]
    by (simp add: payload1_def)
  have b1: "currentBend (Some payload1) 1.5 = 0.5"
    using lookups_last_sample [of payload1 "1.5" 2 1 ?bs 0]
    by (simp add: payload1_def)
  have b2: "currentBend (Some payload1) 0.5 = 0"
    using lookups_last_sample [of payload1 "0.5" 2 1 ?bs 0]
    by (simp add: payload1_def)
  have b3: "currentBend (Some (payload1\<lparr>pitch_bends := None\<rparr>)) 1.5 = 0"
    using lookups_last_sample [of "payload1\<lparr>pitch_bends := None\<rparr>" "1.5" 2 1 ?bs 0]
    by simp
  from c1 c2 b1 b2 b3 show ?thesis by simp
qed

text \<open>
  C10: with no payload loaded the derived centre fret is 2 in automatic and in manual
  mode, whatever the manual value; with a payload whose \<open>hand_positions\<close> is empty it is 0
  in automatic mode.
\<close>

theorem unloaded_center_fret:
  "currentCenterFret None t True m = 2
   \<and> currentCenterFret None t False m = 2
   \<and> currentCenterFret (Some (r\<lparr>hand_positions := []\<rparr>)) t True m = 0"
  by (simp add: currentCenterFret_def)

text \<open>
  C7: a note is sounding at t iff start \<le> t < end, and \<open>activeNotes\<close> resolves exactly
  those notes; a note is never sounding at its own end, it is sounding at its own start
  (when it has positive length), and a note from 1.0 to 2.0 is not sounding at 0.99,
  sounding at 1.0 and not sounding at 2.0.
\<close>

theorem sounding_half_open:
  "(sounding t n \<longleftrightarrow> n_start n \<le> t \<and> t < n_end n)
   \<and> activeNotes (Some r) t a m =
       map (resolveNote (currentCenterFret (Some r) t a m) a m)
         (filter (\<lambda>n. n_start n \<le> t \<and> t < n_end n) (notes r))
   \<and> \<not> sounding (n_end n) n
   \<and> (sounding (n_start n) n \<longleftrightarrow> n_start n < n_end n)
   \<and> \<not> sounding 0.99 (n\<lparr>n_start := 1, n_end := 2\<rparr>)
   \<and> sounding 1 (n\<lparr>n_start := 1, n_end := 2\<rparr>)
   \<and> \<not> sounding 2 (n\<lparr>n_start := 1, n_end := 2\<rparr>)"
proof -
  have s: "sounding = (\<lambda>t n. n_start n \<le> t \<and> t < n_end n)"
    by (auto simp: sounding_def fun_eq_iff)
  show ?thesis
    by (simp add: activeNotes_def Let_def s)
qed

theorem sounding_half_open_witness:
  "sounding 1 (note1\<lparr>n_start := 1, n_end := 2\<rparr>)
   \<and> \<not> sounding 2 (note1\<lparr>n_start := 1, n_end := 2\<rparr>)
   \<and> activeNotes (Some payload2) 0.5 True 2 = [note1]
   \<and> activeNotes (Some payload2) 1 True 2 = []"
  using sounding_half_open [of "0.5" note1 payload2 True 2]
    sounding_half_open [of 1 note1 payload2 True 2]
  by (simp add: payload2_def note1_def resolveNote_def)

section \<open>Properties of the note resolver\<close>

lemma ev100: "getPossiblePositions 100 = []"
  by (simp add: getPossiblePositions_def TUNING_def pushIfReachable_def MAX_FRET_def)

lemma getBestPosition_None:
  "getPossiblePositions p = [] \<Longrightarrow> getBestPosition p c = None"
  by (simp add: getBestPosition_def)

lemma resolveNote_cases:
  "resolveNote c a m n =
     (if a \<and> n_string n \<noteq> None \<and> n_fret n \<noteq> None then n
      else (case getBestPosition (n_pitch n) (if a then c else m) of
              Some b \<Rightarrow> n\<lparr>n_string := Some (string b), n_fret := Some (fret b)\<rparr>
            | None \<Rightarrow> n))"
  by (simp add: resolveNote_def Let_def split: option.splits)

text \<open>
  C2 (amended): every note sounding at t is resolved as follows. If it carries an explicit
  (string, fret) pair and hand tracking is automatic, it is kept unchanged. Otherwise
  \<open>getBestPosition\<close> is asked for its pitch around the target centre (the automatic centre
  fret at t in automatic mode, the manual value in manual mode); a returned position
  gives the note its string and fret, and when none is returned the note keeps the
  fields it was supplied with.
\<close>

theorem activeNotes_resolution:
  "activeNotes (Some r) t a m =
     map (\<lambda>n. if a \<and> n_string n \<noteq> None \<and> n_fret n \<noteq> None then n
              else (case getBestPosition (n_pitch n)
                           (if a then currentCenterFret (Some r) t True m else m) of
                      Some b \<Rightarrow> n\<lparr>n_string := Some (string b), n_fret := Some (fret b)\<rparr>
                    | None \<Rightarrow> n))
       (filter (\<lambda>n. n_start n \<le> t \<and> t < n_end n) (notes r))"
proof -
  have s: "sounding t = (\<lambda>n. n_start n \<le> t \<and> t < n_end n)"
    by (auto simp: sounding_def fun_eq_iff)
  have f: "resolveNote (currentCenterFret (Some r) t a m) a m =
      (\<lambda>n. if a \<and> n_string n \<noteq> None \<and> n_fret n \<noteq> None then n
              else (case getBestPosition (n_pitch n)
                           (if a then currentCenterFret (Some r) t True m else m) of
                      Some b \<Rightarrow> n\<lparr>n_string := Some (string b), n_fret := Some (fret b)\<rparr>
                    | None \<Rightarrow> n))"
    by (rule ext) (auto simp: resolveNote_cases)
  show ?thesis
    by (simp add: activeNotes_def Let_def s f)
qed

theorem activeNotes_resolution_witness:
  "map (\<lambda>n. (n_string n, n_fret n)) (activeNotes (Some payload2) 0.5 False 2)
     = [(Some 0, Some 5)]
   \<and> map (\<lambda>n. (n_string n, n_fret n))
       (activeNotes (Some (payload2\<lparr>notes := [note1\<lparr>n_pitch := 57\<rparr>]\<rparr>)) 0.5 False 3)
     = [(Some 3, Some 2)]
   \<and> map (\<lambda>n. (n_string n, n_fret n))
       (activeNotes (Some (payload2\<lparr>notes := [note1\<lparr>n_pitch := 57\<rparr>]\<rparr>)) 0.5 True 3)
     = [(Some 0, Some 5)]"
proof -
  have b: "getBestPosition 57 3 = Some \<lparr>string = 3, fret = 2, pitch = 57\<rparr>"
    by (simp add: getBestPosition_def ev57 closer_def toDouble_exact)
  show ?thesis
    by (simp add: activeNotes_resolution payload2_def note1_def getBestPosition_None ev100 b)
qed

text \<open>
  C2 as stated fails: in manual mode a note of unreachable pitch 100 supplied with string 0,
  fret 5 keeps that pair, although \<open>getBestPosition\<close> returns no position for it.
\<close>

theorem activeNotes_claimed_counterexample:
  "activeNotes (Some payload2) 0.5 False 2 \<noteq>
     map (resolveNote_claimed (currentCenterFret (Some payload2) 0.5 False 2) False 2)
       (filter (sounding 0.5) (notes payload2))
   \<and> map (\<lambda>n. (n_string n, n_fret n)) (activeNotes (Some payload2) 0.5 False 2)
       = [(Some 0, Some 5)]
   \<and> getBestPosition 100 2 = None"
  by (simp add: activeNotes_def payload2_def note1_def sounding_def resolveNote_def
      resolveNote_claimed_def getBestPosition_None ev100)

lemma resolveNote_unplaced: "unplaced n \<Longrightarrow> resolveNote c a m n = n"
  by (auto simp: resolveNote_cases unplaced_def getBestPosition_None)

lemma notePos_unplaced: "unplaced n \<Longrightarrow> notePos n c = None"
  by (auto simp: notePos_def unplaced_def getBestPosition_None split: option.splits)

lemma addPosition_unplaced:
  "unplaced n \<Longrightarrow> addPosition c' filt (resolveNote c a m n) positions = positions"
  by (simp add: resolveNote_unplaced addPosition_def notePos_unplaced)

lemma fold_addPosition_drop:
  "fold (addPosition c' filt) (map (resolveNote c a m) (filter P xs)) acc =
   fold (addPosition c' filt) (map (resolveNote c a m) (filter P (filter (\<lambda>n. \<not> unplaced n) xs))) acc"
  by (induction xs arbitrary: acc) (simp_all add: addPosition_unplaced)

text \<open>
  C5 (amended): a sounding note without an explicit (string, fret) pair whose pitch
  \<open>getPossiblePositions\<close> cannot place leaves the active positions as they are, in
  automatic and in manual mode and for every centre fret and filter setting: the
  positions computed from a payload are those computed from the payload without such
  notes. No function on this path has a failing branch.
\<close>

theorem unplaced_dropped:
  "(unplaced n \<longrightarrow>
      addPosition c' filt (resolveNote c a m n) positions = positions)
   \<and> currentActivePositions (activeNotes (Some r) t a m) c' filt =
     currentActivePositions
       (activeNotes (Some (r\<lparr>notes := filter (\<lambda>n. \<not> unplaced n) (notes r)\<rparr>)) t a m) c' filt"
proof -
  have c: "currentCenterFret (Some (r\<lparr>notes := filter (\<lambda>n. \<not> unplaced n) (notes r)\<rparr>)) t a m
      = currentCenterFret (Some r) t a m"
    by (simp add: currentCenterFret_def)
  have "currentActivePositions (activeNotes (Some r) t a m) c' filt =
     currentActivePositions
       (activeNotes (Some (r\<lparr>notes := filter (\<lambda>n. \<not> unplaced n) (notes r)\<rparr>)) t a m) c' filt"
    using fold_addPosition_drop [of c' filt "currentCenterFret (Some r) t a m" a m
        "sounding t" "notes r" "[]"]
    by (simp add: currentActivePositions_def activeNotes_def Let_def c)
  then show ?thesis
    by (simp add: addPosition_unplaced)
qed

theorem unplaced_dropped_witness:
  "unplaced (note1\<lparr>n_fret := None\<rparr>)
   \<and> currentActivePositions
       (activeNotes (Some (payload2\<lparr>notes := [note1\<lparr>n_fret := None\<rparr>]\<rparr>)) 0.5 False 2) 2 False = []
   \<and> currentActivePositions
       (activeNotes (Some (payload2\<lparr>notes := [note1\<lparr>n_fret := None\<rparr>]\<rparr>)) 0.5 True 2) 0 False = []"
proof -
  have u: "unplaced (note1\<lparr>n_fret := None\<rparr>)"
    by (simp add: unplaced_def note1_def ev100)
  have e: "\<And>a m c. currentActivePositions (activeNotes (Some (payload2\<lparr>notes := []\<rparr>)) 0.5 a m) c False = []"
    by (simp add: activeNotes_def currentActivePositions_def)
  show ?thesis
    using u e
      unplaced_dropped [of "note1\<lparr>n_fret := None\<rparr>" 2 False 0 False 2 "[]"
        "payload2\<lparr>notes := [note1\<lparr>n_fret := None\<rparr>]\<rparr>" "0.5"]
      unplaced_dropped [of "note1\<lparr>n_fret := None\<rparr>" 0 False 0 True 2 "[]"
        "payload2\<lparr>notes := [note1\<lparr>n_fret := None\<rparr>]\<rparr>" "0.5"]
    by simp
qed

text \<open>
  C5 as stated fails: a sounding note of unreachable pitch 100 supplied with string 0,
  fret 5 is given the marker (0, 5), in automatic and in manual mode.
\<close>

theorem explicit_unreachable_counterexample:
  "getPossiblePositions (n_pitch note1) = []
   \<and> sounding 0.5 note1
   \<and> map fst (currentActivePositions (activeNotes (Some payload2) 0.5 True 2)
        (currentCenterFret (Some payload2) 0.5 True 2) False) = [(0, 5)]
   \<and> map fst (currentActivePositions (activeNotes (Some payload2) 0.5 False 2)
        (currentCenterFret (Some payload2) 0.5 False 2) False) = [(0, 5)]"
  by (simp add: ev100 note1_def sounding_def payload2_def activeNotes_def resolveNote_def
      getBestPosition_None currentActivePositions_def addPosition_def notePos_def
      shouldRender_def currentCenterFret_def)

section \<open>Properties of the note trail\<close>

lemma in_keys_iff: "k \<in> set (map fst al) \<longleftrightarrow> map_of al k \<noteq> None"
  by (simp add: map_of_eq_None_iff)

lemma key_present: "map_of al k = Some v \<Longrightarrow> k \<in> fst ` set al"
  by (metis map_of_eq_None_iff option.distinct(1))

lemma refreshed_idem: "refreshed active now k (refreshed active now k e) = refreshed active now k e"
  by (simp add: refreshed_def split: option.splits)

lemma unexpired_idem: "unexpired now (unexpired now x) = unexpired now x"
  by (simp add: unexpired_def split: option.splits)

lemma unexpired_None [simp]: "unexpired now None = None"
  by (simp add: unexpired_def)

lemma unexpired_Some: "unexpired now x = Some e \<Longrightarrow> x = Some e \<and> \<not> expired now e"
  by (auto simp: unexpired_def split: option.splits if_splits)

lemma map_of_markOrRefresh:
  "map_of (markOrRefresh active now x nxt) k =
     (if k = x then map_option (refreshed active now x) (map_of nxt k) else map_of nxt k)"
  by (auto simp: markOrRefresh_def refreshed_def update_conv' split: option.splits)

lemma map_of_addActive:
  "map_of (addActive active x nxt) k =
     (if k = x then (case map_of active k of None \<Rightarrow> map_of nxt k
                     | Some a \<Rightarrow> Some (a\<lparr>isFading := False\<rparr>))
      else map_of nxt k)"
  by (auto simp: addActive_def update_conv' split: option.splits)

lemma map_of_cleanup:
  "map_of (cleanup now x nxt) k = (if k = x then unexpired now (map_of nxt k) else map_of nxt k)"
  by (auto simp: cleanup_def unexpired_def delete_conv' split: option.splits)

lemma map_of_fold_markOrRefresh:
  "map_of (fold (markOrRefresh active now) ks nxt) k =
     (if k \<in> set ks then map_option (refreshed active now k) (map_of nxt k) else map_of nxt k)"
proof (induction ks arbitrary: nxt)
  case Nil
  show ?case by simp
next
  case (Cons x ks)
  show ?case
    by (simp add: Cons.IH map_of_markOrRefresh option.map_comp comp_def refreshed_idem)
qed

lemma map_of_fold_addActive:
  "map_of (fold (addActive active) ks nxt) k =
     (if k \<in> set ks then (case map_of active k of None \<Rightarrow> map_of nxt k
                          | Some a \<Rightarrow> Some (a\<lparr>isFading := False\<rparr>))
      else map_of nxt k)"
proof (induction ks arbitrary: nxt)
  case Nil
  show ?case by simp
next
  case (Cons x ks)
  show ?case
    by (simp add: Cons.IH map_of_addActive split: option.splits)
qed

lemma map_of_fold_cleanup:
  "map_of (fold (cleanup now) ks nxt) k =
     (if k \<in> set ks then unexpired now (map_of nxt k) else map_of nxt k)"
proof (induction ks arbitrary: nxt)
  case Nil
  show ?case by simp
next
  case (Cons x ks)
  show ?case
    by (simp add: Cons.IH map_of_cleanup unexpired_idem)
qed

lemma map_of_sweep: "map_of (sweep prev now) k = unexpired now (map_of prev k)"
  by (cases "map_of prev k") (simp_all add: sweep_def map_of_fold_cleanup in_keys_iff key_present)

lemma map_of_reconcile:
  "map_of (reconcile prev active now) k =
     (case map_of active k of
        Some a \<Rightarrow> Some (a\<lparr>isFading := False\<rparr>)
      | None \<Rightarrow> unexpired now (map_option (refreshed active now k) (map_of prev k)))"
proof -
  let ?n1 = "fold (markOrRefresh active now) (map fst prev) prev"
  let ?n2 = "fold (addActive active) (map fst active) ?n1"
  have n1: "map_of ?n1 k = map_option (refreshed active now k) (map_of prev k)"
    by (cases "map_of prev k") (simp_all add: map_of_fold_markOrRefresh in_keys_iff key_present)
  have n2: "map_of ?n2 k =
      (case map_of active k of None \<Rightarrow> map_of ?n1 k | Some a \<Rightarrow> Some (a\<lparr>isFading := False\<rparr>))"
    by (cases "map_of active k") (simp_all add: map_of_fold_addActive in_keys_iff key_present)
  have n3: "map_of (reconcile prev active now) k = unexpired now (map_of ?n2 k)"
    by (cases "map_of ?n2 k") (simp_all add: reconcile_def Let_def map_of_fold_cleanup in_keys_iff key_present)
  show ?thesis
    unfolding n3 n2 n1
    by (simp add: unexpired_def expired_def split: option.splits)
qed

lemma reconcile_unexpired:
  "map_of (reconcile prev active now) k = Some e \<Longrightarrow> \<not> expired now e"
  by (auto simp: map_of_reconcile expired_def split: option.splits dest: unexpired_Some)

lemma sweep_unexpired:
  "map_of (sweep prev now) k = Some e \<Longrightarrow> \<not> expired now e"
  by (auto simp: map_of_sweep dest: unexpired_Some)

lemma fresh_fold_addPosition:
  "map_of (fold (addPosition c f) ns acc) k = Some a \<Longrightarrow>
   (\<And>k' a'. map_of acc k' = Some a' \<Longrightarrow> \<not> isFading a' \<and> fadeStartTime a' = None) \<Longrightarrow>
   \<not> isFading a \<and> fadeStartTime a = None"
proof (induction ns arbitrary: acc)
  case Nil
  then show ?case by simp
next
  case (Cons n ns)
  have "\<And>k' a'. map_of (addPosition c f n acc) k' = Some a' \<Longrightarrow>
      \<not> isFading a' \<and> fadeStartTime a' = None"
    using Cons.prems(2)
    by (auto simp: addPosition_def update_conv' split: option.splits if_splits)
  with Cons.IH [of "addPosition c f n acc"] Cons.prems(1) show ?case
    by simp
qed

lemma fresh_currentActivePositions:
  "map_of (currentActivePositions ns c f) k = Some a \<Longrightarrow> \<not> isFading a \<and> fadeStartTime a = None"
  unfolding currentActivePositions_def
  by (erule fresh_fold_addPosition) simp

lemma hasFading_present:
  "map_of rendered k = Some e \<Longrightarrow> isFading e \<Longrightarrow> hasFading rendered"
  unfolding hasFading_def list_ex_iff
  by (auto dest!: map_of_SomeD)

lemmas trail_eval =
  reconcile_def sweep_def markOrRefresh_def addActive_def cleanup_def expired_def
  updated_def armSweep_def hasFading_def Let_def

lemma cap2: "currentActivePositions [note2] 2 False = [((3, 2), entry2)]"
  by (simp add: currentActivePositions_def addPosition_def notePos_def shouldRender_def
      note2_def entry2_def)

lemma step_keeps_active:
  assumes "step s ev = Some s'" and "staysActive ev k"
    and "\<exists>e. map_of (renderedNotes s) k = Some e \<and> \<not> isFading e"
  shows "\<exists>e. map_of (renderedNotes s') k = Some e \<and> \<not> isFading e"
proof (cases ev)
  case (Tick active now)
  with assms(2) obtain a where a: "map_of active k = Some a"
    by auto
  from assms(1) Tick have "renderedNotes s' = reconcile (renderedNotes s) active now"
    by (auto simp: updated_def split: if_splits)
  with a show ?thesis
    by (simp add: map_of_reconcile)
next
  case (Sweep now)
  with assms(1) have "renderedNotes s' = sweep (renderedNotes s) now"
    by (auto simp: updated_def split: if_splits)
  with assms(3) show ?thesis
    by (auto simp: map_of_sweep unexpired_def expired_def)
qed

lemma run_keeps_active:
  "run s evs = Some s' \<Longrightarrow> \<forall>ev \<in> set evs. staysActive ev k \<Longrightarrow>
   \<exists>e. map_of (renderedNotes s) k = Some e \<and> \<not> isFading e \<Longrightarrow>
   \<exists>e. map_of (renderedNotes s') k = Some e \<and> \<not> isFading e"
proof (induction evs arbitrary: s)
  case Nil
  then show ?case by simp
next
  case (Cons ev evs)
  from Cons.prems(1) obtain s1 where s1: "step s ev = Some s1" and r: "run s1 evs = Some s'"
    by (auto split: option.splits)
  have "\<exists>e. map_of (renderedNotes s1) k = Some e \<and> \<not> isFading e"
    using s1 Cons.prems(2,3) by (intro step_keeps_active [of s ev s1 k]) simp_all
  with r Cons.prems(2) show ?case
    by (intro Cons.IH) simp_all
qed

text \<open>
  C4: on a reconciliation tick, a key of the active positions is in the result whatever
  the previous trail held for it (fading, expired or absent), with the active entry's note,
  \<open>isFading\<close> false and no fade timestamp. A sweep leaves every entry that is not fading
  as it is. Hence, from a tick that has the key active and as long as every later tick
  has it active, the key stays in the trail and is not fading.
\<close>

theorem resurrection:
  "(map_of (currentActivePositions ns c f) k = Some a \<longrightarrow>
      map_of (reconcile prev (currentActivePositions ns c f) now) k =
        Some \<lparr>note = note a, isFading = False, fadeStartTime = None\<rparr>)
   \<and> (map_of prev k = Some e \<and> \<not> isFading e \<longrightarrow> map_of (sweep prev now) k = Some e)
   \<and> (step s (Tick active now) = Some s1 \<and> map_of active k \<noteq> None
        \<and> run s1 evs = Some s2 \<and> (\<forall>ev \<in> set evs. staysActive ev k) \<longrightarrow>
      (\<exists>e'. map_of (renderedNotes s2) k = Some e' \<and> \<not> isFading e'))"
proof (intro conjI impI)
  assume a: "map_of (currentActivePositions ns c f) k = Some a"
  then have "\<not> isFading a \<and> fadeStartTime a = None"
    by (rule fresh_currentActivePositions)
  then have "a\<lparr>isFading := False\<rparr> = \<lparr>note = note a, isFading = False, fadeStartTime = None\<rparr>"
    by (cases a) simp
  with a show "map_of (reconcile prev (currentActivePositions ns c f) now) k =
        Some \<lparr>note = note a, isFading = False, fadeStartTime = None\<rparr>"
    by (simp add: map_of_reconcile)
next
  assume "map_of prev k = Some e \<and> \<not> isFading e"
  then show "map_of (sweep prev now) k = Some e"
    by (simp add: map_of_sweep unexpired_def expired_def)
next
  assume h: "step s (Tick active now) = Some s1 \<and> map_of active k \<noteq> None
        \<and> run s1 evs = Some s2 \<and> (\<forall>ev \<in> set evs. staysActive ev k)"
  then obtain a where a: "map_of active k = Some a"
    by auto
  from h have "renderedNotes s1 = reconcile (renderedNotes s) active now"
    by (auto simp: updated_def split: if_splits)
  with a have "\<exists>e. map_of (renderedNotes s1) k = Some e \<and> \<not> isFading e"
    by (simp add: map_of_reconcile)
  with h show "\<exists>e'. map_of (renderedNotes s2) k = Some e' \<and> \<not> isFading e'"
    by (intro run_keeps_active [of s1 evs s2 k]) simp_all
qed

theorem resurrection_witness:
  "map_of (currentActivePositions [note2] 2 False) (3, 2) = Some entry2
   \<and> expired 2000 faded2
   \<and> map_of (reconcile [((3, 2), faded2)] (currentActivePositions [note2] 2 False) 2000) (3, 2)
       = Some entry2
   \<and> map_of (sweep [((3, 2), entry2)] 5000) (3, 2) = Some entry2
   \<and> (\<exists>e'. map_of (renderedNotes \<lparr>renderedNotes = [((3, 2), entry2)], clock = 2100, sweepDue = None\<rparr>)
          (3, 2) = Some e' \<and> \<not> isFading e')"
proof -
  let ?act = "currentActivePositions [note2] 2 False"
  let ?s = "\<lparr>renderedNotes = [((3, 2), faded2)], clock = 1900, sweepDue = Some 2000\<rparr>"
  let ?s1 = "\<lparr>renderedNotes = [((3, 2), entry2)], clock = 2000, sweepDue = None\<rparr>"
  let ?s2 = "\<lparr>renderedNotes = [((3, 2), entry2)], clock = 2100, sweepDue = None\<rparr>"
  have a: "map_of ?act (3, 2) = Some entry2"
    by (simp add: cap2)
  have x: "expired 2000 faded2"
    by (simp add: expired_def faded2_def)
  have nf: "\<not> isFading entry2" and n: "note entry2 = note2"
    by (simp_all add: entry2_def)
  have e: "\<lparr>note = note2, isFading = False, fadeStartTime = None\<rparr> = entry2"
    by (simp add: entry2_def)
  have st: "step ?s (Tick ?act 2000) = Some ?s1"
    by (simp add: cap2 faded2_def entry2_def trail_eval)
  have r: "run ?s1 [Tick ?act 2100] = Some ?s2"
    by (simp add: cap2 entry2_def trail_eval)
  note t = resurrection [where ns = "[note2]" and c = 2 and f = False and k = "(3, 2)"
      and a = entry2 and prev = "[((3, 2), faded2)]" and now = 2000 and s = ?s
      and active = ?act and ?s1.0 = ?s1 and evs = "[Tick ?act 2100]" and ?s2.0 = ?s2]
  have 1: "map_of (reconcile [((3, 2), faded2)] ?act 2000) (3, 2) = Some entry2"
    using t a n e by simp
  have 3: "\<exists>e'. map_of (renderedNotes ?s2) (3, 2) = Some e' \<and> \<not> isFading e'"
    using t st r a by simp
  have 4: "map_of (sweep [((3, 2), entry2)] 5000) (3, 2) = Some entry2"
    using resurrection [where k = "(3, 2)" and prev = "[((3, 2), entry2)]" and now = 5000
        and e = entry2] nf
    by simp
  from a x 1 4 3 show ?thesis
    by blast
qed

lemma updated_fadingSince:
  assumes k: "map_of rendered k =
      (if now - T > 500 then None else Some (e\<lparr>isFading := True, fadeStartTime := Some T\<rparr>))"
    and un: "\<And>k' e'. map_of rendered k' = Some e' \<Longrightarrow> \<not> expired now e'"
  shows "fadingSince T k e (updated rendered now)"
proof (cases "now - T > 500")
  case True
  with k un show ?thesis
    by (auto simp: fadingSince_def updated_def armSweep_def)
next
  case False
  with k have p: "map_of rendered k = Some (e\<lparr>isFading := True, fadeStartTime := Some T\<rparr>)"
    by simp
  then have "hasFading rendered"
    by (rule hasFading_present) simp
  with p False un show ?thesis
    by (auto simp: fadingSince_def updated_def armSweep_def)
qed

lemma step_fadingSince:
  assumes inv: "fadingSince T k e s" and st: "step s ev = Some s'" and na: "\<not> activeAt ev k"
  shows "fadingSince T k e s'"
proof (cases ev)
  case (Tick active now)
  with st have adm: "clock s \<le> now"
    and s': "s' = updated (reconcile (renderedNotes s) active now) now"
    by (auto split: if_splits)
  from na Tick have nk: "map_of active k = None"
    by simp
  have "map_of (reconcile (renderedNotes s) active now) k =
      (if now - T > 500 then None else Some (e\<lparr>isFading := True, fadeStartTime := Some T\<rparr>))"
    using inv adm
    by (auto simp: fadingSince_def map_of_reconcile nk refreshed_def unexpired_def expired_def
        split: option.splits)
  then show ?thesis
    unfolding s' by (rule updated_fadingSince) (rule reconcile_unexpired)
next
  case (Sweep now)
  with st have adm: "clock s \<le> now"
    and s': "s' = updated (sweep (renderedNotes s) now) now"
    by (auto split: if_splits)
  have "map_of (sweep (renderedNotes s) now) k =
      (if now - T > 500 then None else Some (e\<lparr>isFading := True, fadeStartTime := Some T\<rparr>))"
    using inv adm
    by (auto simp: fadingSince_def map_of_sweep unexpired_def expired_def split: option.splits)
  then show ?thesis
    unfolding s' by (rule updated_fadingSince) (rule sweep_unexpired)
qed

lemma run_fadingSince:
  "fadingSince T k e s \<Longrightarrow> run s evs = Some s' \<Longrightarrow> \<forall>ev \<in> set evs. \<not> activeAt ev k \<Longrightarrow>
   fadingSince T k e s'"
proof (induction evs arbitrary: s)
  case Nil
  then show ?case by simp
next
  case (Cons ev evs)
  from Cons.prems(2) obtain s1 where s1: "step s ev = Some s1" and r: "run s1 evs = Some s'"
    by (auto split: option.splits)
  from Cons.prems(1) s1 have "fadingSince T k e s1"
    by (rule step_fadingSince) (use Cons.prems(3) in simp)
  then show ?case
    using r Cons.prems(3) by (intro Cons.IH) simp_all
qed

lemma leave_fadingSince:
  assumes st: "step s (Tick active T) = Some s1"
    and p: "map_of (renderedNotes s) k = Some e" and nf: "\<not> isFading e"
    and na: "map_of active k = None"
  shows "fadingSince T k e s1"
proof -
  from st have s1: "s1 = updated (reconcile (renderedNotes s) active T) T"
    by (auto split: if_splits)
  have "map_of (reconcile (renderedNotes s) active T) k =
      (if T - T > 500 then None else Some (e\<lparr>isFading := True, fadeStartTime := Some T\<rparr>))"
    using p nf na
    by (simp add: map_of_reconcile refreshed_def unexpired_def expired_def)
  then show ?thesis
    unfolding s1 by (rule updated_fadingSince) (rule reconcile_unexpired)
qed

lemma step_clock_due:
  "step s ev = Some s' \<Longrightarrow> sweepDue s = Some d \<Longrightarrow> clock s' \<le> d"
  by (cases ev) (auto simp: updated_def split: if_splits)

text \<open>
  C3: let a key that is in the trail and not fading be missing from the active positions
  of a tick at wall-clock time T, and stay missing in the events that follow. Then after
  these events: if the clock is at most T + 500 the key is still there, fading since T;
  if the clock is past T + 500 the key is gone; no entry of the trail is expired, so each
  tick and each sweep deletes the entries fading for more than 500 ms; the interval is
  set iff an entry is fading; and while the key is there the next sweep is due 100 ms
  after the last update, at T + 600 at the latest, and no event happens later than that.
\<close>

theorem fade_removal_window:
  assumes "step s (Tick active T) = Some s1"
    and "map_of (renderedNotes s) k = Some e" and "\<not> isFading e"
    and "map_of active k = None"
    and "run s1 evs = Some s2"
    and "\<forall>ev \<in> set evs. \<not> activeAt ev k"
  shows "(clock s2 \<le> T + 500 \<longrightarrow>
            map_of (renderedNotes s2) k = Some (e\<lparr>isFading := True, fadeStartTime := Some T\<rparr>))
       \<and> (T + 500 < clock s2 \<longrightarrow> map_of (renderedNotes s2) k = None)
       \<and> (\<forall>k' e'. map_of (renderedNotes s2) k' = Some e' \<longrightarrow> \<not> expired (clock s2) e')
       \<and> ((sweepDue s2 \<noteq> None) = hasFading (renderedNotes s2))
       \<and> (map_of (renderedNotes s2) k \<noteq> None \<longrightarrow>
            sweepDue s2 = Some (clock s2 + 100) \<and> clock s2 + 100 \<le> T + 600
            \<and> (\<forall>ev s3. step s2 ev = Some s3 \<longrightarrow> clock s3 \<le> T + 600))"
proof -
  have "fadingSince T k e s1"
    using assms(1-4) by (rule leave_fadingSince)
  then have inv: "fadingSince T k e s2"
    using assms(5,6) by (rule run_fadingSince)
  have a: "clock s2 \<le> T + 500 \<longrightarrow>
            map_of (renderedNotes s2) k = Some (e\<lparr>isFading := True, fadeStartTime := Some T\<rparr>)"
    using inv by (auto simp: fadingSince_def split: option.splits)
  have b: "T + 500 < clock s2 \<longrightarrow> map_of (renderedNotes s2) k = None"
    using inv by (auto simp: fadingSince_def split: option.splits)
  have c: "\<forall>k' e'. map_of (renderedNotes s2) k' = Some e' \<longrightarrow> \<not> expired (clock s2) e'"
    using inv by (simp add: fadingSince_def)
  have d: "(sweepDue s2 \<noteq> None) = hasFading (renderedNotes s2)"
    using inv by (simp add: fadingSince_def)
  have e1: "map_of (renderedNotes s2) k \<noteq> None \<longrightarrow>
            sweepDue s2 = Some (clock s2 + 100) \<and> clock s2 + 100 \<le> T + 600"
    using inv by (auto simp: fadingSince_def split: option.splits)
  have e2: "map_of (renderedNotes s2) k \<noteq> None \<longrightarrow>
            (\<forall>ev s3. step s2 ev = Some s3 \<longrightarrow> clock s3 \<le> T + 600)"
    using e1 step_clock_due [of s2 _ _ "clock s2 + 100"] by fastforce
  from a b c d e1 e2 show ?thesis
    by blast
qed

theorem fade_removal_window_witness:
  "map_of (renderedNotes state0) (3, 2) = Some entry2
   \<and> step state0 (Tick [] 1000) =
       Some \<lparr>renderedNotes = [((3, 2), faded2)], clock = 1000, sweepDue = Some 1100\<rparr>
   \<and> run \<lparr>renderedNotes = [((3, 2), faded2)], clock = 1000, sweepDue = Some 1100\<rparr>
       [Sweep 1100, Tick [] 1150, Sweep 1250, Tick [] 1300, Sweep 1400, Sweep 1500] =
       Some \<lparr>renderedNotes = [((3, 2), faded2)], clock = 1500, sweepDue = Some 1600\<rparr>
   \<and> run \<lparr>renderedNotes = [((3, 2), faded2)], clock = 1000, sweepDue = Some 1100\<rparr>
       [Sweep 1100, Tick [] 1150, Sweep 1250, Tick [] 1300, Sweep 1400, Sweep 1500, Sweep 1600] =
       Some \<lparr>renderedNotes = [], clock = 1600, sweepDue = None\<rparr>"
proof -
  let ?s1 = "\<lparr>renderedNotes = [((3, 2), faded2)], clock = 1000, sweepDue = Some 1100\<rparr>"
  let ?evs = "[Sweep 1100, Tick [] 1150, Sweep 1250, Tick [] 1300, Sweep 1400, Sweep 1500]"
  let ?s2 = "\<lparr>renderedNotes = [((3, 2), faded2)], clock = 1500, sweepDue = Some 1600\<rparr>"
  let ?s3 = "\<lparr>renderedNotes = [], clock = 1600, sweepDue = None\<rparr>"
  have p: "map_of (renderedNotes state0) (3, 2) = Some entry2"
    by (simp add: state0_def)
  have nf: "\<not> isFading entry2"
    by (simp add: entry2_def)
  have st: "step state0 (Tick [] 1000) = Some ?s1"
    by (simp add: state0_def entry2_def faded2_def trail_eval)
  have r2: "run ?s1 ?evs = Some ?s2"
    by (simp add: faded2_def trail_eval)
  have r3: "run ?s1 (?evs @ [Sweep 1600]) = Some ?s3"
    by (simp add: faded2_def trail_eval)
  have w2: "map_of (renderedNotes ?s2) (3, 2) = Some (entry2\<lparr>isFading := True, fadeStartTime := Some 1000\<rparr>)"
    using fade_removal_window [OF st p nf _ r2] by simp
  have w3: "map_of (renderedNotes ?s3) (3, 2) = None"
    using fade_removal_window [OF st p nf _ r3] by simp
  from p st r2 r3 w2 w3 show ?thesis
    by simp
qed

text \<open>
  C9: the live bend value is used for a rendered note that is not fading; a fading note
  shows the \<open>bend_value\<close> of its own note record, 0 when the record has none, whatever the
  live value is.
\<close>

theorem dynamicBend_frozen:
  "dynamicBend rn b =
     (if isFading rn then (case bend_value (note rn) of None \<Rightarrow> 0 | Some v \<Rightarrow> v) else b)"
  by (simp add: dynamicBend_def split: option.splits)

theorem dynamicBend_frozen_witness:
  "dynamicBend faded2 0.7 = 0.5 \<and> dynamicBend entry2 0.7 = 0.7"
  using dynamicBend_frozen [of faded2 "0.7"] dynamicBend_frozen [of entry2 "0.7"]
  by (simp add: faded2_def entry2_def note2_def)

end
